theory Spec2Isabelle
  imports Main
begin

section \<open>The key-value store collaborator\<close>

text \<open>
  The class \<open>KeyValueFileSystem\<close> of \<open>src/index.ts\<close> drives a store through the
  interface \<open>KeyValueStore\<close> (lines 1-11). The store is modelled as an association
  list (the order in which \<open>getAllKeys\<close> lists the keys is the order of the list)
  together with the log of the calls made on it. Strings are lists of \<open>char\<close>: one
  \<open>char\<close> stands for one code unit of a JavaScript string.
\<close>

datatype store_call =
    GetAllKeys
  | GetItem string
  | SetItem string string
  | RemoveItem string
  | MultiGet "string list"
  | MultiSet "(string \<times> string) list"
  | MultiRemove "string list"

record kv_store =
  entries :: "(string \<times> string) list"
  calls :: "store_call list"

definition logged :: "store_call \<Rightarrow> kv_store \<Rightarrow> kv_store" where
  "logged c st = st\<lparr>calls := calls st @ [c]\<rparr>"

fun upsert :: "string \<Rightarrow> string \<Rightarrow> (string \<times> string) list \<Rightarrow> (string \<times> string) list" where
  "upsert k v [] = [(k, v)]"
| "upsert k v ((k', v') # es) =
     (if k' = k then (k, v) # es else (k', v') # upsert k v es)"

definition getAllKeys :: "kv_store \<Rightarrow> string list \<times> kv_store" where
  "getAllKeys st = (map fst (entries st), logged GetAllKeys st)"

definition getItem :: "kv_store \<Rightarrow> string \<Rightarrow> string option \<times> kv_store" where
  "getItem st key = (map_of (entries st) key, logged (GetItem key) st)"

definition setItem :: "kv_store \<Rightarrow> string \<Rightarrow> string \<Rightarrow> kv_store" where
  "setItem st key v = logged (SetItem key v) (st\<lparr>entries := upsert key v (entries st)\<rparr>)"

definition removeItem :: "kv_store \<Rightarrow> string \<Rightarrow> kv_store" where
  "removeItem st key =
     logged (RemoveItem key) (st\<lparr>entries := filter (\<lambda>e. fst e \<noteq> key) (entries st)\<rparr>)"

definition multiGet :: "kv_store \<Rightarrow> string list \<Rightarrow> (string \<times> string option) list \<times> kv_store" where
  "multiGet st keys =
     (map (\<lambda>key. (key, map_of (entries st) key)) keys, logged (MultiGet keys) st)"

definition multiSet :: "kv_store \<Rightarrow> (string \<times> string) list \<Rightarrow> kv_store" where
  "multiSet st keyValuePairs =
     logged (MultiSet keyValuePairs)
       (st\<lparr>entries := fold (\<lambda>(k, v). upsert k v) keyValuePairs (entries st)\<rparr>)"

definition multiRemove :: "kv_store \<Rightarrow> string list \<Rightarrow> kv_store" where
  "multiRemove st keys =
     logged (MultiRemove keys)
       (st\<lparr>entries := filter (\<lambda>e. fst e \<notin> set keys) (entries st)\<rparr>)"

section \<open>The codec and the errors\<close>

text \<open>
  \<open>JSON.stringify\<close> and \<open>JSON.parse\<close> are parameters of the model: \<open>stringify\<close> is
  total, \<open>parse\<close> returns \<open>None\<close> where \<open>JSON.parse\<close> throws.
\<close>

record 'v json =
  stringify :: "'v \<Rightarrow> string"
  parse :: "string \<Rightarrow> 'v option"

datatype error =
    ConfigurationError  \<comment> \<open>"keyNamespacePrefix must not be empty ..."\<close>
  | ValidationError     \<comment> \<open>"spec or path must not be empty"\<close>
  | SyntaxError         \<comment> \<open>\<open>new RegExp\<close> threw\<close>
  | CodecError          \<comment> \<open>\<open>JSON.parse\<close> threw\<close>

section \<open>The instance\<close>

record kvfs =
  store :: kv_store
  prefix :: string

definition constructor :: "kv_store \<Rightarrow> string option \<Rightarrow> error + kvfs" where
  "constructor st keyNamespacePrefix =
     (let p = (case keyNamespacePrefix of None \<Rightarrow> ''/kvfs'' | Some q \<Rightarrow> q)
      in if length p = 0 then Inl ConfigurationError
         else Inr \<lparr>store = st, prefix = p\<rparr>)"

definition validatePath :: "string \<Rightarrow> error + unit" where
  "validatePath path = (if length path = 0 then Inl ValidationError else Inr ())"

definition startsWith :: "string \<Rightarrow> string \<Rightarrow> bool" where
  "startsWith key p = (take (length p) key = p)"

subsection \<open>Point operations\<close>

text \<open>The method \<open>write\<close> is \<open>write_value\<close> here (\<open>write\<close> is an Isar keyword).\<close>

definition read :: "'v json \<Rightarrow> kvfs \<Rightarrow> string \<Rightarrow> (error + 'v option) \<times> kvfs" where
  "read J fs path =
     (case validatePath path of
        Inl e \<Rightarrow> (Inl e, fs)
      | Inr _ \<Rightarrow>
          (let (item, st) = getItem (store fs) (prefix fs @ path)
           in case item of
                None \<Rightarrow> (Inr None, fs\<lparr>store := st\<rparr>)
              | Some text \<Rightarrow>
                  (case parse J text of
                     None \<Rightarrow> (Inl CodecError, fs\<lparr>store := st\<rparr>)
                   | Some v \<Rightarrow> (Inr (Some v), fs\<lparr>store := st\<rparr>))))"

definition write_value :: "'v json \<Rightarrow> kvfs \<Rightarrow> string \<Rightarrow> 'v \<Rightarrow> (error + unit) \<times> kvfs" where
  "write_value J fs path v =
     (case validatePath path of
        Inl e \<Rightarrow> (Inl e, fs)
      | Inr _ \<Rightarrow>
          (Inr (), fs\<lparr>store := setItem (store fs) (prefix fs @ path) (stringify J v)\<rparr>))"

definition rm :: "kvfs \<Rightarrow> string \<Rightarrow> (error + unit) \<times> kvfs" where
  "rm fs path =
     (case validatePath path of
        Inl e \<Rightarrow> (Inl e, fs)
      | Inr _ \<Rightarrow> (Inr (), fs\<lparr>store := removeItem (store fs) (prefix fs @ path)\<rparr>))"

subsection \<open>Batch operations\<close>

text \<open>
  The callback of \<open>values.map\<close> in \<open>writeMulti\<close> validates an entry before it encodes
  it, and throws out of the whole \<open>map\<close> at the first entry whose path is empty.
  \<open>fullPath\<close> is the path of line 89, \<open>basePath\<close> followed by \<open>subPath\<close> when \<open>basePath\<close>
  is truthy and \<open>subPath\<close> alone otherwise: an undefined and an empty \<open>basePath\<close> are
  both falsy.
\<close>

definition fullPath :: "string option \<Rightarrow> string \<Rightarrow> string" where
  "fullPath basePath subPath =
     (case basePath of
        None \<Rightarrow> subPath
      | Some b \<Rightarrow> if b = [] then subPath else b @ subPath)"

fun keyValues ::
  "'v json \<Rightarrow> string \<Rightarrow> string option \<Rightarrow> (string \<times> 'v) list \<Rightarrow> error + (string \<times> string) list"
where
  "keyValues J p basePath [] = Inr []"
| "keyValues J p basePath ((subPath, v) # values) =
     (case validatePath (fullPath basePath subPath) of
        Inl e \<Rightarrow> Inl e
      | Inr _ \<Rightarrow>
          (case keyValues J p basePath values of
             Inl e \<Rightarrow> Inl e
           | Inr kvs \<Rightarrow> Inr ((p @ fullPath basePath subPath, stringify J v) # kvs)))"

definition writeMulti ::
  "'v json \<Rightarrow> kvfs \<Rightarrow> string option \<Rightarrow> (string \<times> 'v) list \<Rightarrow> (error + unit) \<times> kvfs"
where
  "writeMulti J fs basePath values =
     (if length values = 0 then (Inr (), fs)
      else case keyValues J (prefix fs) basePath values of
             Inl e \<Rightarrow> (Inl e, fs)
           | Inr kvs \<Rightarrow> (Inr (), fs\<lparr>store := multiSet (store fs) kvs\<rparr>))"

definition rmAllForce :: "kvfs \<Rightarrow> (error + unit) \<times> kvfs" where
  "rmAllForce fs =
     (let (keys, st) = getAllKeys (store fs);
          ourKeys = filter (\<lambda>key. startsWith key (prefix fs)) keys
      in (Inr (), fs\<lparr>store := multiRemove st ourKeys\<rparr>))"

text \<open>
  Modelled from the spec: \<open>rmMulti\<close> (the spec's \<open>removeMulti\<close>) is called by
  \<open>test/index.spec.ts\<close> and is not defined in \<open>src/index.ts\<close>. The spec: "list of literal
  paths; empty list is a no-op", "batch-removes the given exact paths", "empty input
  performs zero store operations".
\<close>

definition rmMulti :: "kvfs \<Rightarrow> string list \<Rightarrow> (error + unit) \<times> kvfs" where
  "rmMulti fs paths =
     (if length paths = 0 then (Inr (), fs)
      else (Inr (), fs\<lparr>store := multiRemove (store fs) (map (\<lambda>path. prefix fs @ path) paths)\<rparr>))"

section \<open>The pattern compiler\<close>

text \<open>
  \<open>regexFromSpec\<close> (lines 116-154) scans the spec into literal segments, escapes each
  segment, joins them with \<open>.*\<close> and builds the text of a regular expression around
  them. \<open>scan\<close> is the \<open>while\<close> loop, on the part of the spec from index \<open>i\<close> on;
  reading \<open>spec[i]\<close> past the end gives \<open>undefined\<close>, which \<open>+=\<close> appends as the
  text \<open>undefined\<close>.
\<close>

definition backslash :: char where
  "backslash = CHR 0x5C"

fun scan :: "string \<Rightarrow> string list \<Rightarrow> string \<Rightarrow> string list \<times> string" where
  "scan [] segments curSegment = (segments, curSegment)"
| "scan (c # cs) segments curSegment =
     (if c = backslash then
        (case cs of
           [] \<Rightarrow> scan [] segments (curSegment @ ''undefined'')
         | d # ds \<Rightarrow> scan ds segments (curSegment @ [d]))
      else if c = CHR ''*'' then
        (if length curSegment \<noteq> 0 then scan cs (segments @ [curSegment]) []
         else scan cs segments curSegment)
      else scan cs segments (curSegment @ [c]))"

definition segmentsOf :: "string \<Rightarrow> string list" where
  "segmentsOf spec =
     (let (segments, curSegment) = scan spec [] []
      in if length curSegment \<noteq> 0 then segments @ [curSegment] else segments)"

text \<open>The characters of the class \<open>[.*+\-?^${}()|[\]\\]\<close> of line 148.\<close>

definition regexSpecial :: "char \<Rightarrow> bool" where
  "regexSpecial c = (c \<in> set ''.*+-?^${}()|[]'' \<or> c = backslash)"

definition escapeSegment :: "string \<Rightarrow> string" where
  "escapeSegment seg = concat (map (\<lambda>c. if regexSpecial c then [backslash, c] else [c]) seg)"

fun join :: "string \<Rightarrow> string list \<Rightarrow> string" where
  "join sep [] = []"
| "join sep [x] = x"
| "join sep (x # y # ys) = x @ sep @ join sep (y # ys)"

text \<open>
  \<open>openEnd\<close> is the test \<open>spec[spec.length - 1] === "*"\<close> of line 152; on the empty
  spec the character read is \<open>undefined\<close> and the test fails.
\<close>

definition openEnd :: "string \<Rightarrow> bool" where
  "openEnd spec = (spec \<noteq> [] \<and> last spec = CHR ''*'')"

definition regexSource :: "string \<Rightarrow> string \<Rightarrow> string" where
  "regexSource p spec =
     (let segRegex = join ''.*'' (map escapeSegment (segmentsOf spec))
      in ''^'' @ p @ segRegex @ (if openEnd spec then ''.*'' else []) @ ''$'')"

section \<open>Regular expressions\<close>

text \<open>
  \<open>new RegExp(source)\<close> and \<open>regex.test(key)\<close> belong to the JavaScript engine, not to
  this repository. They are modelled in two parts.

  The first part, \<open>fragment\<close> and \<open>test\<close>, gives the meaning of the regular expressions
  made of characters, escaped characters, \<open>.\<close>, one of \<open>*\<close>, \<open>+\<close>, \<open>?\<close> after one of
  these, \<open>^\<close> and \<open>$\<close>. The texts that \<open>regexFromSpec\<close> builds from a prefix without
  syntax characters are all of this kind. \<open>syntaxCharacter\<close> is the SyntaxCharacter of
  the ECMAScript grammar; a backslash before one of the characters that line 148
  escapes makes that character literal. The regular expression has no flags: \<open>^\<close>
  holds at the start of the key only, \<open>$\<close> at its end only, \<open>.\<close> is any character but a
  line terminator (line feed and carriage return are the two that a \<open>char\<close> can
  hold), and \<open>test\<close> keeps no state.

  The second part is a parameter, the \<open>engine\<close>: for the text of a regular expression
  it gives \<open>None\<close> where \<open>new RegExp\<close> throws a SyntaxError, and otherwise the set of keys
  on which \<open>test\<close> is true. \<open>RegExp\<close> asks the engine about every text that is not of the
  first part (one with a group, an alternative, a class, braces, an escaped letter or
  digit, a quantifier on nothing), so that the model answers on every text and says
  nothing of its own about the texts it does not interpret.
\<close>

definition syntaxCharacter :: "char \<Rightarrow> bool" where
  "syntaxCharacter c = (c \<in> set ''^$.*+?()[]{}|'' \<or> c = backslash)"

datatype rx_atom = Lit char | AnyChar

datatype rx_term = Bol | Eol | One rx_atom | Star rx_atom | Plus rx_atom | Opt rx_atom

datatype rx_token = TAtom rx_atom | TStar | TPlus | TOpt | TBol | TEol

fun tokens :: "string \<Rightarrow> rx_token list option" where
  "tokens [] = Some []"
| "tokens [c] =
     (if c = CHR ''.'' then Some [TAtom AnyChar]
      else if c = CHR ''*'' then Some [TStar]
      else if c = CHR ''+'' then Some [TPlus]
      else if c = CHR ''?'' then Some [TOpt]
      else if c = CHR ''^'' then Some [TBol]
      else if c = CHR ''$'' then Some [TEol]
      else if syntaxCharacter c then None
      else Some [TAtom (Lit c)])"
| "tokens (c # d # ds) =
     (if c = backslash then
        (if regexSpecial d then map_option (Cons (TAtom (Lit d))) (tokens ds) else None)
      else if c = CHR ''.'' then map_option (Cons (TAtom AnyChar)) (tokens (d # ds))
      else if c = CHR ''*'' then map_option (Cons TStar) (tokens (d # ds))
      else if c = CHR ''+'' then map_option (Cons TPlus) (tokens (d # ds))
      else if c = CHR ''?'' then map_option (Cons TOpt) (tokens (d # ds))
      else if c = CHR ''^'' then map_option (Cons TBol) (tokens (d # ds))
      else if c = CHR ''$'' then map_option (Cons TEol) (tokens (d # ds))
      else if syntaxCharacter c then None
      else map_option (Cons (TAtom (Lit c))) (tokens (d # ds)))"

fun terms :: "rx_token list \<Rightarrow> rx_term list option" where
  "terms [] = Some []"
| "terms (TAtom a # TStar # ts) = map_option (Cons (Star a)) (terms ts)"
| "terms (TAtom a # TPlus # ts) = map_option (Cons (Plus a)) (terms ts)"
| "terms (TAtom a # TOpt # ts) = map_option (Cons (Opt a)) (terms ts)"
| "terms (TAtom a # ts) = map_option (Cons (One a)) (terms ts)"
| "terms (TBol # ts) = map_option (Cons Bol) (terms ts)"
| "terms (TEol # ts) = map_option (Cons Eol) (terms ts)"
| "terms (TStar # ts) = None"
| "terms (TPlus # ts) = None"
| "terms (TOpt # ts) = None"

definition fragment :: "string \<Rightarrow> rx_term list option" where
  "fragment source = (case tokens source of None \<Rightarrow> None | Some ts \<Rightarrow> terms ts)"

definition lineTerminator :: "char \<Rightarrow> bool" where
  "lineTerminator c = (c = CHR 0x0A \<or> c = CHR 0x0D)"

fun accepts :: "rx_atom \<Rightarrow> char \<Rightarrow> bool" where
  "accepts (Lit c) d = (c = d)"
| "accepts AnyChar d = (\<not> lineTerminator d)"

text \<open>
  \<open>matchFrom ts atStart s\<close>: the terms \<open>ts\<close> match some beginning of \<open>s\<close>, where
  \<open>atStart\<close> says that \<open>s\<close> is the whole key.
\<close>

fun matchFrom :: "rx_term list \<Rightarrow> bool \<Rightarrow> string \<Rightarrow> bool" where
  "matchFrom [] atStart s = True"
| "matchFrom (Bol # ts) atStart s = (atStart \<and> matchFrom ts atStart s)"
| "matchFrom (Eol # ts) atStart s = (s = [] \<and> matchFrom ts atStart s)"
| "matchFrom (One a # ts) atStart [] = False"
| "matchFrom (One a # ts) atStart (c # s) = (accepts a c \<and> matchFrom ts False s)"
| "matchFrom (Star a # ts) atStart [] = matchFrom ts atStart []"
| "matchFrom (Star a # ts) atStart (c # s) =
     (matchFrom ts atStart (c # s) \<or> (accepts a c \<and> matchFrom (Star a # ts) False s))"
| "matchFrom (Plus a # ts) atStart [] = False"
| "matchFrom (Plus a # ts) atStart (c # s) = (accepts a c \<and> matchFrom (Star a # ts) False s)"
| "matchFrom (Opt a # ts) atStart [] = matchFrom ts atStart []"
| "matchFrom (Opt a # ts) atStart (c # s) =
     (matchFrom ts atStart (c # s) \<or> (accepts a c \<and> matchFrom ts False s))"

fun search :: "rx_term list \<Rightarrow> bool \<Rightarrow> string \<Rightarrow> bool" where
  "search ts atStart [] = matchFrom ts atStart []"
| "search ts atStart (c # s) = (matchFrom ts atStart (c # s) \<or> search ts False s)"

definition test :: "rx_term list \<Rightarrow> string \<Rightarrow> bool" where
  "test regex key = search regex True key"

type_synonym engine = "string \<Rightarrow> (string \<Rightarrow> bool) option"

definition RegExp :: "engine \<Rightarrow> string \<Rightarrow> (string \<Rightarrow> bool) option" where
  "RegExp E source =
     (case fragment source of
        Some regex \<Rightarrow> Some (\<lambda>key. test regex key)
      | None \<Rightarrow> E source)"

text \<open>
  \<open>refusing\<close> is the engine that throws on every text. It stands in for the engine in
  the closed examples, which lie in the first part, where the engine is not asked.
\<close>

definition refusing :: engine where
  "refusing source = None"

definition regexFromSpec :: "engine \<Rightarrow> kvfs \<Rightarrow> string \<Rightarrow> (string \<Rightarrow> bool) option" where
  "regexFromSpec E fs spec = RegExp E (regexSource (prefix fs) spec)"

section \<open>Listing and reading by pattern\<close>

text \<open>
  \<open>normalizedSpec\<close> is \<open>spec || "*"\<close> of line 34: an undefined spec (\<open>None\<close>) and the
  empty spec are both falsy.
\<close>

definition normalizedSpec :: "string option \<Rightarrow> string" where
  "normalizedSpec spec = (case spec of None \<Rightarrow> ''*'' | Some s \<Rightarrow> if s = [] then ''*'' else s)"

definition ls :: "engine \<Rightarrow> kvfs \<Rightarrow> string option \<Rightarrow> (error + string list) \<times> kvfs" where
  "ls E fs spec =
     (let (keys, st) = getAllKeys (store fs)
      in case regexFromSpec E fs (normalizedSpec spec) of
           None \<Rightarrow> (Inl SyntaxError, fs\<lparr>store := st\<rparr>)
         | Some regex \<Rightarrow>
             (Inr (map (\<lambda>key. drop (length (prefix fs)) key) (filter (\<lambda>key. regex key) keys)),
              fs\<lparr>store := st\<rparr>))"

text \<open>
  The callback of \<open>values.map\<close> in \<open>readMulti\<close>: \<open>str ? JSON.parse(str) : null\<close>, where
  \<open>null\<close> and the empty string are the falsy values of \<open>str\<close>.
\<close>

fun pathValues ::
  "'v json \<Rightarrow> string \<Rightarrow> (string \<times> string option) list \<Rightarrow> error + (string \<times> 'v option) list"
where
  "pathValues J p [] = Inr []"
| "pathValues J p ((path, str) # values) =
     (case (case str of
              None \<Rightarrow> Inr None
            | Some text \<Rightarrow>
                if text = [] then Inr None
                else (case parse J text of None \<Rightarrow> Inl CodecError | Some v \<Rightarrow> Inr (Some v))) of
        Inl e \<Rightarrow> Inl e
      | Inr v \<Rightarrow>
          (case pathValues J p values of
             Inl e \<Rightarrow> Inl e
           | Inr pvs \<Rightarrow> Inr ((drop (length p) path, v) # pvs)))"

definition readMulti ::
  "engine \<Rightarrow> 'v json \<Rightarrow> kvfs \<Rightarrow> string \<Rightarrow> (error + (string \<times> 'v option) list) \<times> kvfs"
where
  "readMulti E J fs spec =
     (case ls E fs (Some spec) of
        (Inl e, fs1) \<Rightarrow> (Inl e, fs1)
      | (Inr keys, fs1) \<Rightarrow>
          (let (values, st) = multiGet (store fs1) (map (\<lambda>key. prefix fs1 @ key) keys)
           in case pathValues J (prefix fs1) values of
                Inl e \<Rightarrow> (Inl e, fs1\<lparr>store := st\<rparr>)
              | Inr pvs \<Rightarrow> (Inr pvs, fs1\<lparr>store := st\<rparr>)))"

section \<open>Vocabulary of the statements\<close>

text \<open>
  A prefix is plain when none of its characters is a syntax character of regular
  expressions; the default prefix \<open>/kvfs\<close> is plain.
\<close>

definition plainPrefix :: "string \<Rightarrow> bool" where
  "plainPrefix p = (\<forall>c \<in> set p. \<not> syntaxCharacter c)"

text \<open>
  The tokens and the terms that a list of literal segments stands for, and the terms
  \<open>globTerms\<close> of a whole spec after the prefix: the segments with \<open>.*\<close> between
  them, \<open>.*\<close> once more when the end is open, and the end of the key.
\<close>

definition atomTokens :: "string \<Rightarrow> rx_token list" where
  "atomTokens s = map (\<lambda>c. TAtom (Lit c)) s"

definition atomTerms :: "string \<Rightarrow> rx_term list" where
  "atomTerms s = map (\<lambda>c. One (Lit c)) s"

fun segTokens :: "string list \<Rightarrow> rx_token list" where
  "segTokens [] = []"
| "segTokens [s] = atomTokens s"
| "segTokens (s # t # ss) = atomTokens s @ [TAtom AnyChar, TStar] @ segTokens (t # ss)"

fun segTerms :: "string list \<Rightarrow> rx_term list" where
  "segTerms [] = []"
| "segTerms [s] = atomTerms s"
| "segTerms (s # t # ss) = atomTerms s @ [Star AnyChar] @ segTerms (t # ss)"

definition globTerms :: "string \<Rightarrow> rx_term list" where
  "globTerms spec =
     segTerms (segmentsOf spec) @ (if openEnd spec then [Star AnyChar] else []) @ [Eol]"

definition globMatch :: "string \<Rightarrow> string \<Rightarrow> bool" where
  "globMatch spec path = matchFrom (globTerms spec) False path"

definition noLeadingQuantifier :: "rx_token list \<Rightarrow> bool" where
  "noLeadingQuantifier ts =
     (case ts of TStar # _ \<Rightarrow> False | TPlus # _ \<Rightarrow> False | TOpt # _ \<Rightarrow> False | _ \<Rightarrow> True)"

definition prepend :: "'a list \<Rightarrow> 'a list option \<Rightarrow> 'a list option" where
  "prepend xs t = map_option (\<lambda>ys. xs @ ys) t"

text \<open>
  \<open>danglingEscape spec\<close>: read from the left, with each backslash taking the character
  after it, the spec ends in a backslash that has no character left to take.
\<close>

fun danglingEscape :: "string \<Rightarrow> bool" where
  "danglingEscape [] = False"
| "danglingEscape [c] = (c = backslash)"
| "danglingEscape (c # d # ds) =
     (if c = backslash then danglingEscape ds else danglingEscape (d # ds))"

section \<open>Facts about the store\<close>

lemma map_of_upsert: "map_of (upsert k v es) = (map_of es)(k \<mapsto> v)"
  by (induction es) (auto simp: fun_eq_iff)

lemma map_of_filter_keys:
  "map_of (filter (\<lambda>e. fst e \<notin> K) es) = map_of es |` (- K)"
  by (induction es) (auto simp: fun_eq_iff restrict_map_def)

lemma keys_filter_keys:
  "key \<notin> K \<Longrightarrow>
   key \<in> set (map fst (filter (\<lambda>e. fst e \<notin> K) es)) \<longleftrightarrow> key \<in> set (map fst es)"
  by (induction es) force+

lemma keyValues_empty_path:
  "(subPath, v) \<in> set vs \<Longrightarrow> fullPath basePath subPath = [] \<Longrightarrow>
   keyValues J p basePath vs = Inl ValidationError"
proof (induction vs)
  case Nil
  then show ?case by simp
next
  case (Cons e vs)
  obtain s w where e: "e = (s, w)" by (cases e)
  show ?case
  proof (cases "fullPath basePath s = []")
    case True
    then show ?thesis by (simp add: e validatePath_def)
  next
    case False
    with Cons e have "keyValues J p basePath vs = Inl ValidationError" by auto
    with False show ?thesis by (simp add: e validatePath_def)
  qed
qed

lemma keys_upsert:
  "map fst (upsert k v es) = (if k \<in> set (map fst es) then map fst es else map fst es @ [k])"
  by (induction es) force+

lemma distinct_upsert: "distinct (map fst es) \<Longrightarrow> distinct (map fst (upsert k v es))"
  by (simp add: keys_upsert)

lemma distinct_filter_entries: "distinct (map fst es) \<Longrightarrow> distinct (map fst (filter P es))"
  by (induction es) auto

lemma filter_eq_distinct:
  "distinct xs \<Longrightarrow> filter (\<lambda>x. x = a) xs = (if a \<in> set xs then [a] else [])"
  by (induction xs) auto

lemma Collect_insert_if:
  "{x \<in> insert a A. P x} = (if P a then insert a {x \<in> A. P x} else {x \<in> A. P x})"
  by auto

lemma Collect_empty_if: "{x \<in> {}. P x} = {}"
  by simp

lemmas eval_defs =
  ls_def normalizedSpec_def getAllKeys_def logged_def regexFromSpec_def regexSource_def
  openEnd_def segmentsOf_def escapeSegment_def regexSpecial_def syntaxCharacter_def
  backslash_def RegExp_def fragment_def test_def lineTerminator_def

section \<open>The regular expression of a spec under a plain prefix\<close>

lemma prepend_Nil: "prepend [] t = t"
  by (cases t) (simp_all add: prepend_def)

lemma prepend_Cons: "map_option (Cons x) (prepend xs t) = prepend (x # xs) t"
  by (cases t) (simp_all add: prepend_def)

lemma prepend_single: "map_option (Cons x) t = prepend [x] t"
  by (cases t) (simp_all add: prepend_def)

lemma prepend_prepend: "prepend xs (prepend ys t) = prepend (xs @ ys) t"
  by (cases t) (simp_all add: prepend_def)

lemma prepend_Some: "prepend xs (Some ys) = Some (xs @ ys)"
  by (simp add: prepend_def)

lemma tokens_plain_char:
  "\<not> syntaxCharacter c \<Longrightarrow> tokens (c # xs) = map_option (Cons (TAtom (Lit c))) (tokens xs)"
  by (cases xs) (auto simp: syntaxCharacter_def)

lemma tokens_escaped:
  "regexSpecial d \<Longrightarrow> tokens (backslash # d # xs) = map_option (Cons (TAtom (Lit d))) (tokens xs)"
  by simp

lemma tokens_dot: "tokens (CHR ''.'' # xs) = map_option (Cons (TAtom AnyChar)) (tokens xs)"
  by (cases xs) (simp_all add: backslash_def)

lemma tokens_star: "tokens (CHR ''*'' # xs) = map_option (Cons TStar) (tokens xs)"
  by (cases xs) (simp_all add: backslash_def)

lemma tokens_caret: "tokens (CHR ''^'' # xs) = map_option (Cons TBol) (tokens xs)"
  by (cases xs) (simp_all add: backslash_def)

lemma tokens_dollar: "tokens ''$'' = Some [TEol]"
  by simp

lemma special_syntax: "syntaxCharacter c \<Longrightarrow> regexSpecial c"
  by (auto simp: syntaxCharacter_def regexSpecial_def)

lemma tokens_escapeSegment:
  "tokens (escapeSegment seg @ rest) = prepend (atomTokens seg) (tokens rest)"
proof (induction seg)
  case Nil
  show ?case by (simp add: escapeSegment_def atomTokens_def prepend_Nil)
next
  case (Cons c seg)
  have step: "escapeSegment (c # seg) @ rest =
      (if regexSpecial c then [backslash, c] else [c]) @ (escapeSegment seg @ rest)"
    by (simp add: escapeSegment_def)
  show ?case
  proof (cases "regexSpecial c")
    case True
    then show ?thesis
      unfolding step using Cons
      by (simp add: tokens_escaped prepend_Cons atomTokens_def del: tokens.simps)
  next
    case False
    then have "\<not> syntaxCharacter c" using special_syntax by blast
    with False show ?thesis
      unfolding step using Cons
      by (simp add: tokens_plain_char prepend_Cons atomTokens_def del: tokens.simps)
  qed
qed

lemma tokens_plainPrefix:
  "plainPrefix p \<Longrightarrow> tokens (p @ rest) = prepend (atomTokens p) (tokens rest)"
proof (induction p)
  case Nil
  show ?case by (simp add: atomTokens_def prepend_Nil)
next
  case (Cons c p)
  then have "\<not> syntaxCharacter c" and "plainPrefix p" by (simp_all add: plainPrefix_def)
  with Cons.IH show ?case
    by (simp add: tokens_plain_char prepend_Cons atomTokens_def del: tokens.simps)
qed

lemma tokens_join:
  "tokens (join ''.*'' (map escapeSegment segs) @ rest) =
   prepend (segTokens segs) (tokens rest)"
proof (induction segs rule: segTokens.induct)
  case 1
  show ?case by (simp add: prepend_Nil)
next
  case (2 s)
  show ?case by (simp add: tokens_escapeSegment del: tokens.simps)
next
  case (3 s t ss)
  have "tokens (join ''.*'' (map escapeSegment (s # t # ss)) @ rest) =
        tokens (escapeSegment s @ (''.*'' @ (join ''.*'' (map escapeSegment (t # ss)) @ rest)))"
    by simp
  also have "\<dots> = prepend (atomTokens s)
        (tokens (''.*'' @ (join ''.*'' (map escapeSegment (t # ss)) @ rest)))"
    by (rule tokens_escapeSegment)
  also have "tokens (''.*'' @ (join ''.*'' (map escapeSegment (t # ss)) @ rest)) =
        prepend [TAtom AnyChar, TStar] (tokens (join ''.*'' (map escapeSegment (t # ss)) @ rest))"
    by (simp add: tokens_dot tokens_star prepend_single prepend_prepend del: tokens.simps)
  also have "tokens (join ''.*'' (map escapeSegment (t # ss)) @ rest) =
        prepend (segTokens (t # ss)) (tokens rest)"
    by (rule "3.IH")
  finally show ?case
    by (simp add: prepend_prepend del: tokens.simps)
qed

lemma tokens_regexSource:
  assumes "plainPrefix p"
  shows "tokens (regexSource p spec) =
         Some (TBol # atomTokens p @ segTokens (segmentsOf spec)
               @ (if openEnd spec then [TAtom AnyChar, TStar] else []) @ [TEol])"
proof -
  have tail: "tokens ((if openEnd spec then ''.*'' else []) @ ''$'') =
      Some ((if openEnd spec then [TAtom AnyChar, TStar] else []) @ [TEol])"
    by (simp add: backslash_def)
  have "regexSource p spec =
      CHR ''^'' # (p @ (join ''.*'' (map escapeSegment (segmentsOf spec))
          @ ((if openEnd spec then ''.*'' else []) @ ''$'')))"
    by (simp add: regexSource_def openEnd_def Let_def)
  then show ?thesis
    by (simp only: tokens_caret tokens_plainPrefix [OF assms] tokens_join tail)
       (simp add: prepend_Some)
qed

lemma terms_atom:
  "noLeadingQuantifier ts \<Longrightarrow> terms (TAtom a # ts) = map_option (Cons (One a)) (terms ts)"
  by (cases ts rule: terms.cases) (simp_all add: noLeadingQuantifier_def)

lemma noLeadingQuantifier_atoms: "noLeadingQuantifier ts \<Longrightarrow> noLeadingQuantifier (atomTokens s @ ts)"
  by (cases s) (simp_all add: noLeadingQuantifier_def atomTokens_def)

lemma noLeadingQuantifier_segTokens: "noLeadingQuantifier ts \<Longrightarrow> noLeadingQuantifier (segTokens segs @ ts)"
proof (cases segs rule: segTokens.cases)
  case (3 s t ss)
  have "noLeadingQuantifier ([TAtom AnyChar, TStar] @ segTokens (t # ss) @ ts)"
    by (simp add: noLeadingQuantifier_def)
  then have "noLeadingQuantifier (atomTokens s @ [TAtom AnyChar, TStar] @ segTokens (t # ss) @ ts)"
    by (rule noLeadingQuantifier_atoms)
  with 3 show ?thesis by simp
qed (simp_all add: noLeadingQuantifier_atoms)

lemma terms_atomTokens:
  "noLeadingQuantifier ts \<Longrightarrow>
   terms (atomTokens s @ ts) = prepend (atomTerms s) (terms ts)"
proof (induction s)
  case Nil
  show ?case by (simp add: atomTokens_def atomTerms_def prepend_Nil)
next
  case (Cons c s)
  from Cons.prems have "noLeadingQuantifier (atomTokens s @ ts)" by (rule noLeadingQuantifier_atoms)
  then have "terms (TAtom (Lit c) # (atomTokens s @ ts)) =
      map_option (Cons (One (Lit c))) (terms (atomTokens s @ ts))"
    by (rule terms_atom)
  with Cons show ?case
    by (simp add: atomTokens_def atomTerms_def prepend_Cons)
qed

lemma terms_segTokens:
  "noLeadingQuantifier ts \<Longrightarrow>
   terms (segTokens segs @ ts) = prepend (segTerms segs) (terms ts)"
proof (induction segs rule: segTokens.induct)
  case 1
  show ?case by (simp add: prepend_Nil)
next
  case (2 s)
  then show ?case by (simp add: terms_atomTokens)
next
  case (3 s t ss)
  have n: "noLeadingQuantifier ([TAtom AnyChar, TStar] @ segTokens (t # ss) @ ts)"
    by (simp add: noLeadingQuantifier_def)
  have "terms (segTokens (s # t # ss) @ ts) =
        terms (atomTokens s @ ([TAtom AnyChar, TStar] @ segTokens (t # ss) @ ts))"
    by simp
  also have "\<dots> = prepend (atomTerms s)
        (terms ([TAtom AnyChar, TStar] @ segTokens (t # ss) @ ts))"
    using n by (rule terms_atomTokens)
  also have "terms ([TAtom AnyChar, TStar] @ segTokens (t # ss) @ ts) =
        prepend [Star AnyChar] (terms (segTokens (t # ss) @ ts))"
    by (simp add: prepend_single)
  also have "terms (segTokens (t # ss) @ ts) = prepend (segTerms (t # ss)) (terms ts)"
    using "3.prems" by (rule "3.IH")
  finally show ?case
    by (simp add: prepend_prepend prepend_Cons)
qed

lemma fragment_regexSource:
  assumes "plainPrefix p"
  shows "fragment (regexSource p spec) = Some (Bol # atomTerms p @ globTerms spec)"
proof -
  let ?tail = "(if openEnd spec then [TAtom AnyChar, TStar] else []) @ [TEol]"
  have t: "terms ?tail = Some ((if openEnd spec then [Star AnyChar] else []) @ [Eol])"
    by simp
  have n: "noLeadingQuantifier ?tail" by (simp add: noLeadingQuantifier_def)
  have n2: "noLeadingQuantifier (segTokens (segmentsOf spec) @ ?tail)"
    using n by (rule noLeadingQuantifier_segTokens)
  have "terms (TBol # atomTokens p @ segTokens (segmentsOf spec) @ ?tail) =
        map_option (Cons Bol) (terms (atomTokens p @ (segTokens (segmentsOf spec) @ ?tail)))"
    by simp
  also have "\<dots> = Some (Bol # atomTerms p @ globTerms spec)"
    by (simp only: terms_atomTokens [OF n2] terms_segTokens [OF n] t globTerms_def)
       (simp add: prepend_Some)
  finally show ?thesis
    by (simp add: fragment_def tokens_regexSource [OF assms])
qed

lemma RegExp_regexSource:
  assumes "plainPrefix p"
  shows "RegExp E (regexSource p spec) = Some (test (Bol # atomTerms p @ globTerms spec))"
  by (simp add: RegExp_def fragment_regexSource [OF assms])

section \<open>What the regular expression accepts\<close>

lemma search_Bol_False: "search (Bol # ts) False s = False"
  by (induction s) simp_all

lemma search_Bol: "search (Bol # ts) True s = matchFrom ts True s"
  by (cases s) (simp_all add: search_Bol_False)

lemma matchFrom_atomTerms:
  "matchFrom (atomTerms p @ ts) b s = (\<exists>k. s = p @ k \<and> matchFrom ts (b \<and> p = []) k)"
proof (induction p arbitrary: b s)
  case Nil
  show ?case by (simp add: atomTerms_def)
next
  case (Cons c p)
  show ?case
  proof (cases s)
    case Nil
    then show ?thesis by (simp add: atomTerms_def)
  next
    case (Cons d s')
    have "matchFrom (atomTerms (c # p) @ ts) b (d # s') =
          (c = d \<and> matchFrom (atomTerms p @ ts) False s')"
      by (simp add: atomTerms_def)
    also have "\<dots> = (c = d \<and> (\<exists>k. s' = p @ k \<and> matchFrom ts False k))"
      by (simp add: Cons.IH)
    also have "\<dots> = (\<exists>k. d # s' = (c # p) @ k \<and> matchFrom ts (b \<and> c # p = []) k)"
      by auto
    finally show ?thesis using Cons by simp
  qed
qed

lemma matchFrom_flag:
  "Bol \<notin> set ts \<Longrightarrow> matchFrom ts b s = matchFrom ts False s"
  by (induction ts b s rule: matchFrom.induct) simp_all

lemma Bol_segTerms: "Bol \<notin> set (segTerms segs)"
  by (induction segs rule: segTerms.induct) (auto simp: atomTerms_def)

lemma Bol_globTerms: "Bol \<notin> set (globTerms spec)"
  using Bol_segTerms by (simp add: globTerms_def)

lemma test_regexFromSpec:
  assumes "plainPrefix (prefix fs)"
  shows "\<exists>regex. regexFromSpec E fs spec = Some regex \<and>
           (\<forall>key. regex key \<longleftrightarrow> (\<exists>path. key = prefix fs @ path \<and> globMatch spec path))"
proof -
  let ?r = "Bol # atomTerms (prefix fs) @ globTerms spec"
  have r: "regexFromSpec E fs spec = Some (test ?r)"
    by (simp add: regexFromSpec_def RegExp_regexSource [OF assms])
  have "test ?r key \<longleftrightarrow> (\<exists>path. key = prefix fs @ path \<and> globMatch spec path)" for key
  proof -
    have "test ?r key = matchFrom (atomTerms (prefix fs) @ globTerms spec) True key"
      by (simp only: test_def search_Bol)
    also have "\<dots> = (\<exists>k. key = prefix fs @ k \<and> matchFrom (globTerms spec) (True \<and> prefix fs = []) k)"
      by (rule matchFrom_atomTerms)
    also have "\<dots> = (\<exists>k. key = prefix fs @ k \<and> globMatch spec k)"
      unfolding globMatch_def
      by (subst matchFrom_flag [OF Bol_globTerms]) simp
    finally show ?thesis .
  qed
  with r show ?thesis by blast
qed

lemma prefixed_iff:
  "(\<exists>path. key = p @ path \<and> G path) \<longleftrightarrow> (startsWith key p \<and> G (drop (length p) key))"
  by (auto simp: startsWith_def) (metis append_take_drop_id)

lemma ls_plain:
  assumes "plainPrefix (prefix fs)"
  shows "ls E fs spec =
    (Inr (map (\<lambda>key. drop (length (prefix fs)) key)
            (filter (\<lambda>key. startsWith key (prefix fs) \<and>
                            globMatch (normalizedSpec spec) (drop (length (prefix fs)) key))
               (map fst (entries (store fs))))),
     fs\<lparr>store := logged GetAllKeys (store fs)\<rparr>)"
proof -
  obtain regex where r: "regexFromSpec E fs (normalizedSpec spec) = Some regex"
    and t: "\<And>key. regex key \<longleftrightarrow>
          (\<exists>path. key = prefix fs @ path \<and> globMatch (normalizedSpec spec) path)"
    using test_regexFromSpec [OF assms, of E "normalizedSpec spec"] by blast
  have "regex = (\<lambda>key. startsWith key (prefix fs) \<and>
                            globMatch (normalizedSpec spec) (drop (length (prefix fs)) key))"
    by (rule ext) (simp only: t prefixed_iff)
  with r show ?thesis
    unfolding ls_def getAllKeys_def
    by (simp add: Let_def)
qed

lemma set_ls_plain:
  assumes "plainPrefix (prefix fs)" and "fst (ls E fs spec) = Inr paths"
  shows "set paths = {path. prefix fs @ path \<in> set (map fst (entries (store fs))) \<and>
                            globMatch (normalizedSpec spec) path}"
proof -
  have "paths = map (\<lambda>key. drop (length (prefix fs)) key)
            (filter (\<lambda>key. startsWith key (prefix fs) \<and>
                            globMatch (normalizedSpec spec) (drop (length (prefix fs)) key))
               (map fst (entries (store fs))))"
    using assms(2) by (simp add: ls_plain [OF assms(1)])
  then show ?thesis
    apply (auto simp: startsWith_def image_iff)
     apply (metis append_take_drop_id fst_conv)
    by force
qed

lemma set_ls_plain_keys:
  assumes "plainPrefix (prefix fs)" and "fst (ls E fs spec) = Inr paths"
    and "set (fst (getAllKeys (store fs))) = (\<lambda>path. prefix fs @ path) ` A"
  shows "set paths = {path \<in> A. globMatch (normalizedSpec spec) path}"
proof -
  have "set (map fst (entries (store fs))) = (\<lambda>path. prefix fs @ path) ` A"
    using assms(3) by (simp add: getAllKeys_def)
  then show ?thesis
    unfolding set_ls_plain [OF assms(1,2)] by auto
qed

lemma snd_ls: "snd (ls E fs spec) = fs\<lparr>store := logged GetAllKeys (store fs)\<rparr>"
  by (simp add: ls_def getAllKeys_def Let_def split: option.splits)

lemma pathValues_null:
  "pathValues J p (map (\<lambda>key. (p @ key, m (p @ key))) keys) = Inr pvs \<Longrightarrow>
   (path, v) \<in> set pvs \<Longrightarrow>
   (v = None \<longleftrightarrow> (m (p @ path) = None \<or> m (p @ path) = Some []))"
proof (induction keys arbitrary: pvs)
  case Nil
  then show ?case by simp
next
  case (Cons k keys)
  from Cons.prems(1) obtain v0 rest where
    v0: "(case m (p @ k) of None \<Rightarrow> Inr None
          | Some text \<Rightarrow> if text = [] then Inr None
              else (case parse J text of None \<Rightarrow> Inl CodecError | Some w \<Rightarrow> Inr (Some w))) = Inr v0"
    and rest: "pathValues J p (map (\<lambda>key. (p @ key, m (p @ key))) keys) = Inr rest"
    and pvs: "pvs = (k, v0) # rest"
    by (auto split: sum.splits)
  from v0 have hd: "v0 = None \<longleftrightarrow> (m (p @ k) = None \<or> m (p @ k) = Some [])"
  proof (cases "m (p @ k)")
    case None
    with v0 show ?thesis by simp
  next
    case (Some str)
    show ?thesis
    proof (cases "str = []")
      case True
      with Some v0 show ?thesis by simp
    next
      case False
      with Some v0 have "v0 \<noteq> None"
        by (cases "parse J str") auto
      with Some False show ?thesis by simp
    qed
  qed
  from Cons.prems(2) pvs consider "path = k" "v = v0" | "(path, v) \<in> set rest" by auto
  then show ?case
  proof cases
    case 1
    with hd show ?thesis by simp
  next
    case 2
    with Cons.IH [OF rest] show ?thesis by simp
  qed
qed

lemma pathValues_paths:
  "pathValues J p (map (\<lambda>key. (p @ key, m (p @ key))) keys) = Inr pvs \<Longrightarrow> map fst pvs = keys"
proof (induction keys arbitrary: pvs)
  case Nil
  then show ?case by simp
next
  case (Cons k keys)
  from Cons.prems obtain v0 rest where
    rest: "pathValues J p (map (\<lambda>key. (p @ key, m (p @ key))) keys) = Inr rest"
    and pvs: "pvs = (k, v0) # rest"
    by (auto split: sum.splits)
  with Cons.IH [OF rest] show ?case by simp
qed

lemma pathValues_total:
  "\<forall>k \<in> set keys. \<forall>str. m (p @ k) = Some str \<longrightarrow> str \<noteq> [] \<longrightarrow> parse J str \<noteq> None \<Longrightarrow>
   \<exists>pvs. pathValues J p (map (\<lambda>key. (p @ key, m (p @ key))) keys) = Inr pvs"
proof (induction keys)
  case Nil
  show ?case by simp
next
  case (Cons k keys)
  then obtain rest where
    rest: "pathValues J p (map (\<lambda>key. (p @ key, m (p @ key))) keys) = Inr rest"
    by auto
  from Cons.prems have
    "\<exists>v0. (case m (p @ k) of None \<Rightarrow> Inr None
          | Some str \<Rightarrow> if str = [] then Inr None
              else (case parse J str of None \<Rightarrow> Inl CodecError | Some w \<Rightarrow> Inr (Some w))) = Inr v0"
    by (cases "m (p @ k)") auto
  with rest show ?case by auto
qed

section \<open>Removal keeps the keys of others\<close>

text \<open>
  C1. \<open>rmAllForce\<close> removes only keys that start with the prefix of the instance: a key
  of the store that does not start with the prefix has the same value afterwards, and is
  listed by \<open>getAllKeys\<close> afterwards exactly if it was listed before. This holds for
  every store and every prefix.
\<close>

theorem rmAllForce_frame:
  assumes "\<not> startsWith key (prefix fs)"
  shows "map_of (entries (store (snd (rmAllForce fs)))) key = map_of (entries (store fs)) key \<and>
         (key \<in> set (fst (getAllKeys (store (snd (rmAllForce fs))))) \<longleftrightarrow>
          key \<in> set (fst (getAllKeys (store fs))))"
proof -
  let ?K = "set (filter (\<lambda>k. startsWith k (prefix fs)) (map fst (entries (store fs))))"
  have e: "entries (store (snd (rmAllForce fs))) =
           filter (\<lambda>e. fst e \<notin> ?K) (entries (store fs))"
    by (simp add: rmAllForce_def getAllKeys_def multiRemove_def logged_def)
  from assms have k: "key \<notin> ?K" by simp
  have "map_of (filter (\<lambda>e. fst e \<notin> ?K) (entries (store fs))) key = map_of (entries (store fs)) key"
    unfolding map_of_filter_keys using k by (simp add: restrict_map_def)
  moreover have "key \<in> set (map fst (filter (\<lambda>e. fst e \<notin> ?K) (entries (store fs)))) \<longleftrightarrow>
      key \<in> set (map fst (entries (store fs)))"
    using k by (rule keys_filter_keys)
  ultimately show ?thesis
    unfolding getAllKeys_def fst_conv e by blast
qed

theorem rmAllForce_frame_witness:
  "\<not> startsWith ''/kvfoo'' (prefix \<lparr>store = \<lparr>entries = [(''/kvfs/home'', ''1''), (''/kvfoo'', ''secretstuff'')], calls = []\<rparr>, prefix = ''/kvfs''\<rparr>) \<and>
   map_of (entries (store (snd (rmAllForce
      \<lparr>store = \<lparr>entries = [(''/kvfs/home'', ''1''), (''/kvfoo'', ''secretstuff'')], calls = []\<rparr>, prefix = ''/kvfs''\<rparr>)))) ''/kvfoo''
     = Some ''secretstuff'' \<and>
   map_of (entries (store (snd (rmAllForce
      \<lparr>store = \<lparr>entries = [(''/kvfs/home'', ''1''), (''/kvfoo'', ''secretstuff'')], calls = []\<rparr>, prefix = ''/kvfs''\<rparr>)))) ''/kvfs/home''
     = None"
  using rmAllForce_frame [of "''/kvfoo''"
      "\<lparr>store = \<lparr>entries = [(''/kvfs/home'', ''1''), (''/kvfoo'', ''secretstuff'')], calls = []\<rparr>, prefix = ''/kvfs''\<rparr>"]
  by (simp add: startsWith_def rmAllForce_def getAllKeys_def multiRemove_def logged_def)

section \<open>Empty paths and empty batches\<close>

text \<open>
  C4. \<open>read\<close>, \<open>write\<close> and \<open>rm\<close> of the empty path fail with the validation error, and so
  does \<open>writeMulti\<close> when the combined path of any of its entries is empty. In each case
  the instance that comes back is the instance that went in: the entries of the store
  are unchanged and no call was added to the log of the store.
\<close>

theorem empty_path_rejected:
  "read J fs [] = (Inl ValidationError, fs) \<and>
   write_value J fs [] v = (Inl ValidationError, fs) \<and>
   rm fs [] = (Inl ValidationError, fs) \<and>
   ((\<exists>(subPath, w) \<in> set vs. fullPath basePath subPath = []) \<longrightarrow>
      writeMulti J fs basePath vs = (Inl ValidationError, fs))"
proof -
  have "writeMulti J fs basePath vs = (Inl ValidationError, fs)"
    if "(subPath, w) \<in> set vs" "fullPath basePath subPath = []" for subPath w
  proof -
    from that have "vs \<noteq> []" by auto
    moreover from that have "keyValues J (prefix fs) basePath vs = Inl ValidationError"
      by (rule keyValues_empty_path)
    ultimately show ?thesis by (simp add: writeMulti_def)
  qed
  then show ?thesis
    by (auto simp: read_def write_value_def rm_def validatePath_def)
qed

theorem empty_path_rejected_witness:
  "(\<exists>(subPath, w) \<in> set [(''/a'', ''x''), ([], ''y'')]. fullPath (Some []) subPath = []) \<and>
   writeMulti \<lparr>stringify = id, parse = Some\<rparr>
     \<lparr>store = \<lparr>entries = [(''k'', ''v'')], calls = []\<rparr>, prefix = ''/kvfs''\<rparr>
     (Some []) [(''/a'', ''x''), ([], ''y'')]
   = (Inl ValidationError, \<lparr>store = \<lparr>entries = [(''k'', ''v'')], calls = []\<rparr>, prefix = ''/kvfs''\<rparr>)"
  using empty_path_rejected [of "\<lparr>stringify = id, parse = Some\<rparr>"
      "\<lparr>store = \<lparr>entries = [(''k'', ''v'')], calls = []\<rparr>, prefix = ''/kvfs''\<rparr>" undefined
      "[(''/a'', ''x''), ([], ''y'')]" "Some []"]
  by (simp add: fullPath_def)

text \<open>
  C8. \<open>writeMulti\<close> with an empty list of entries returns without an error and gives the
  instance back as it was, whatever \<open>basePath\<close> is (\<open>None\<close> is \<open>undefined\<close>): no entry
  of the store changes and no call is added to its log.
\<close>

theorem writeMulti_empty_list: "writeMulti J fs basePath [] = (Inr (), fs)"
  by (simp add: writeMulti_def)

text \<open>
  C7. \<open>rmMulti\<close>, as the spec describes it: with the empty list it gives the instance
  back as it was (no call on the store); with any list it succeeds, and the store then
  holds what it held before except at the keys \<open>prefix @ path\<close> of the paths given,
  which are absent; a non-empty list is removed by one \<open>multiRemove\<close> call.
\<close>

theorem rmMulti_removes_exact_keys:
  "rmMulti fs [] = (Inr (), fs) \<and>
   fst (rmMulti fs paths) = Inr () \<and>
   map_of (entries (store (snd (rmMulti fs paths)))) =
     map_of (entries (store fs)) |` (- set (map (\<lambda>path. prefix fs @ path) paths)) \<and>
   calls (store (snd (rmMulti fs (path # paths)))) =
     calls (store fs) @ [MultiRemove (map (\<lambda>path. prefix fs @ path) (path # paths))]"
  by (simp add: rmMulti_def multiRemove_def logged_def map_of_filter_keys restrict_map_def)

section \<open>Writing and reading back\<close>

text \<open>
  C5. For a non-empty path \<open>p\<close> and a value \<open>v\<close> that the codec decodes back from its
  encoding, \<open>write\<close> of \<open>v\<close> at \<open>p\<close> succeeds and \<open>read\<close> of \<open>p\<close> on the instance that
  results returns \<open>v\<close> (and not null).
\<close>

theorem write_read_round_trip:
  assumes "path \<noteq> []" and "parse J (stringify J v) = Some v"
  shows "fst (write_value J fs path v) = Inr () \<and>
         fst (read J (snd (write_value J fs path v)) path) = Inr (Some v)"
  using assms
  by (simp add: write_value_def read_def validatePath_def setItem_def getItem_def logged_def
      map_of_upsert)

theorem write_read_round_trip_witness:
  "''/home'' \<noteq> [] \<and>
   parse \<lparr>stringify = id, parse = Some\<rparr> (stringify \<lparr>stringify = id, parse = Some\<rparr> ''{}'') = Some ''{}'' \<and>
   fst (read \<lparr>stringify = id, parse = Some\<rparr>
          (snd (write_value \<lparr>stringify = id, parse = Some\<rparr>
                  \<lparr>store = \<lparr>entries = [(''/kvfs/home'', ''old'')], calls = []\<rparr>, prefix = ''/kvfs''\<rparr>
                  ''/home'' ''{}''))
          ''/home'') = Inr (Some ''{}'')"
  using write_read_round_trip [of "''/home''" "\<lparr>stringify = id, parse = Some\<rparr>" "''{}''"
      "\<lparr>store = \<lparr>entries = [(''/kvfs/home'', ''old'')], calls = []\<rparr>, prefix = ''/kvfs''\<rparr>"]
  by simp

section \<open>Reading many values\<close>

text \<open>
  C10. For every engine, codec, instance and spec: when \<open>readMulti\<close> returns a result,
  the paths of its entries are the paths that \<open>ls\<close> returns for the spec, one entry for
  each and in the same order, and the value of an entry is null exactly if the store has
  no text at the key of the entry (the prefix followed by its path) or has the empty text
  there: the two cases give the same entry. And \<open>readMulti\<close> does return a result whenever
  \<open>ls\<close> returns paths and the codec decodes every non-empty text stored for them.
\<close>

theorem readMulti_null_for_empty_text:
  "(readMulti E J fs spec = (Inr pvs, fs') \<longrightarrow>
      fst (ls E fs (Some spec)) = Inr (map fst pvs) \<and>
      (\<forall>(path, v) \<in> set pvs.
          v = None \<longleftrightarrow>
            (fst (getItem (store fs) (prefix fs @ path)) = None \<or>
             fst (getItem (store fs) (prefix fs @ path)) = Some []))) \<and>
   (fst (ls E fs (Some spec)) = Inr paths \<and>
    (\<forall>path \<in> set paths. \<forall>str.
        fst (getItem (store fs) (prefix fs @ path)) = Some str \<longrightarrow> str \<noteq> [] \<longrightarrow>
        parse J str \<noteq> None) \<longrightarrow>
      (\<exists>pvs fs'. readMulti E J fs spec = (Inr pvs, fs')))"
proof -
  let ?m = "map_of (entries (store fs))"
  let ?fs1 = "fs\<lparr>store := logged GetAllKeys (store fs)\<rparr>"
  obtain r where ls: "ls E fs (Some spec) = (r, ?fs1)"
    using snd_ls [of E fs "Some spec"] by (cases "ls E fs (Some spec)") simp
  have rm: "fst (readMulti E J fs spec) =
      pathValues J (prefix fs) (map (\<lambda>key. (prefix fs @ key, ?m (prefix fs @ key))) keys)"
    if "r = Inr keys" for keys
    using that
    by (simp add: readMulti_def ls multiGet_def logged_def comp_def split: sum.splits)
  have a: "fst (ls E fs (Some spec)) = Inr (map fst pvs) \<and>
      (\<forall>(path, v) \<in> set pvs.
          v = None \<longleftrightarrow>
            (fst (getItem (store fs) (prefix fs @ path)) = None \<or>
             fst (getItem (store fs) (prefix fs @ path)) = Some []))"
    if res: "readMulti E J fs spec = (Inr pvs, fs')"
  proof -
    from res ls obtain keys where r: "r = Inr keys"
      by (cases r) (simp_all add: readMulti_def)
    from res rm [OF r] have pv: "pathValues J (prefix fs)
        (map (\<lambda>key. (prefix fs @ key, ?m (prefix fs @ key))) keys) = Inr pvs"
      by simp
    from pathValues_paths [OF pv] ls r have "fst (ls E fs (Some spec)) = Inr (map fst pvs)"
      by simp
    moreover have "v = None \<longleftrightarrow>
            (fst (getItem (store fs) (prefix fs @ path)) = None \<or>
             fst (getItem (store fs) (prefix fs @ path)) = Some [])"
      if "(path, v) \<in> set pvs" for path v
      using pathValues_null [OF pv that] by (simp add: getItem_def)
    ultimately show ?thesis by fast
  qed
  have b: "\<exists>pvs fs'. readMulti E J fs spec = (Inr pvs, fs')"
    if l: "fst (ls E fs (Some spec)) = Inr paths"
      and d: "\<forall>path \<in> set paths. \<forall>str.
        fst (getItem (store fs) (prefix fs @ path)) = Some str \<longrightarrow> str \<noteq> [] \<longrightarrow>
        parse J str \<noteq> None"
  proof -
    from l ls have r: "r = Inr paths" by simp
    from d have "\<forall>k \<in> set paths. \<forall>str. ?m (prefix fs @ k) = Some str \<longrightarrow> str \<noteq> [] \<longrightarrow>
        parse J str \<noteq> None"
      by (simp add: getItem_def)
    from pathValues_total [OF this] obtain pvs where
      "pathValues J (prefix fs) (map (\<lambda>key. (prefix fs @ key, ?m (prefix fs @ key))) paths) = Inr pvs"
      by fast
    with rm [OF r] have "fst (readMulti E J fs spec) = Inr pvs" by simp
    then have "readMulti E J fs spec = (Inr pvs, snd (readMulti E J fs spec))"
      by (cases "readMulti E J fs spec") simp
    then show ?thesis by fast
  qed
  from a b show ?thesis by fast
qed

theorem readMulti_null_for_empty_text_witness:
  "readMulti refusing \<lparr>stringify = id, parse = Some\<rparr>
     \<lparr>store = \<lparr>entries = [(''/kvfs/ball'', []), (''/kvfs/baller'', ''{}'')], calls = []\<rparr>, prefix = ''/kvfs''\<rparr>
     ''/ball*'' =
   (Inr [(''/ball'', None), (''/baller'', Some ''{}'')],
    \<lparr>store = \<lparr>entries = [(''/kvfs/ball'', []), (''/kvfs/baller'', ''{}'')],
              calls = [GetAllKeys, MultiGet [''/kvfs/ball'', ''/kvfs/baller'']]\<rparr>, prefix = ''/kvfs''\<rparr>) \<and>
   fst (ls refusing
     \<lparr>store = \<lparr>entries = [(''/kvfs/ball'', []), (''/kvfs/baller'', ''{}'')], calls = []\<rparr>, prefix = ''/kvfs''\<rparr>
     (Some ''/ball*'')) = Inr [''/ball'', ''/baller''] \<and>
   fst (getItem (store \<lparr>store = \<lparr>entries = [(''/kvfs/ball'', []), (''/kvfs/baller'', ''{}'')], calls = []\<rparr>, prefix = ''/kvfs''\<rparr>)
         ''/kvfs/ball'') = Some [] \<and>
   readMulti refusing \<lparr>stringify = id, parse = Some\<rparr>
     \<lparr>store = \<lparr>entries = [(''/kvvfs/ball'', ''{}''), (''/kv+fs/ball'', [])], calls = []\<rparr>, prefix = ''/kv+fs''\<rparr>
     ''/ball'' =
   (Inr [(''/ball'', None)],
    \<lparr>store = \<lparr>entries = [(''/kvvfs/ball'', ''{}''), (''/kv+fs/ball'', [])],
              calls = [GetAllKeys, MultiGet [''/kv+fs/ball'']]\<rparr>, prefix = ''/kv+fs''\<rparr>)"
proof -
  let ?J = "\<lparr>stringify = id, parse = Some\<rparr> :: string json"
  let ?fs = "\<lparr>store = \<lparr>entries = [(''/kvfs/ball'', []), (''/kvfs/baller'', ''{}'')], calls = []\<rparr>, prefix = ''/kvfs''\<rparr>"
  let ?fs' = "\<lparr>store = \<lparr>entries = [(''/kvfs/ball'', []), (''/kvfs/baller'', ''{}'')],
              calls = [GetAllKeys, MultiGet [''/kvfs/ball'', ''/kvfs/baller'']]\<rparr>, prefix = ''/kvfs''\<rparr>"
  let ?gs = "\<lparr>store = \<lparr>entries = [(''/kvvfs/ball'', ''{}''), (''/kv+fs/ball'', [])], calls = []\<rparr>, prefix = ''/kv+fs''\<rparr>"
  let ?gs' = "\<lparr>store = \<lparr>entries = [(''/kvvfs/ball'', ''{}''), (''/kv+fs/ball'', [])],
              calls = [GetAllKeys, MultiGet [''/kv+fs/ball'']]\<rparr>, prefix = ''/kv+fs''\<rparr>"
  have r: "readMulti refusing ?J ?fs ''/ball*'' = (Inr [(''/ball'', None), (''/baller'', Some ''{}'')], ?fs')"
    by (simp add: readMulti_def multiGet_def eval_defs)
  have g: "readMulti refusing ?J ?gs ''/ball'' = (Inr [(''/ball'', None)], ?gs')"
    by (simp add: readMulti_def multiGet_def eval_defs)
  from readMulti_null_for_empty_text
        [of refusing ?J ?fs "''/ball*''" "[(''/ball'', None), (''/baller'', Some ''{}'')]" ?fs'
          "[''/ball'', ''/baller'']"]
      readMulti_null_for_empty_text
        [of refusing ?J ?gs "''/ball''" "[(''/ball'', None)]" ?gs' "[''/ball'']"]
      r g
  show ?thesis
    by (simp add: getItem_def)
qed

section \<open>Wildcards in the middle and at the end\<close>

lemma globTerms_ball:
  "globTerms ''/*ball'' =
     [One (Lit CHR ''/''), Star AnyChar, One (Lit CHR ''b''), One (Lit CHR ''a''),
      One (Lit CHR ''l''), One (Lit CHR ''l''), Eol]"
  by (simp add: globTerms_def segmentsOf_def openEnd_def backslash_def atomTerms_def)

lemma globTerms_ball_star:
  "globTerms ''/*ball*'' =
     [One (Lit CHR ''/''), Star AnyChar, One (Lit CHR ''b''), One (Lit CHR ''a''),
      One (Lit CHR ''l''), One (Lit CHR ''l''), Star AnyChar, Eol]"
  by (simp add: globTerms_def segmentsOf_def openEnd_def backslash_def atomTerms_def)

lemma globMatch_ball:
  "globMatch ''/*ball'' ''/baseball''" "globMatch ''/*ball'' ''/basketball''"
  "globMatch ''/*ball'' ''/ball''" "\<not> globMatch ''/*ball'' ''/baller''"
  "\<not> globMatch ''/*ball'' ''/basketweaving''"
  by (simp_all add: globMatch_def globTerms_ball lineTerminator_def)

lemma globMatch_ball_star:
  "globMatch ''/*ball*'' ''/baseball''" "globMatch ''/*ball*'' ''/basketball''"
  "globMatch ''/*ball*'' ''/ball''" "globMatch ''/*ball*'' ''/baller''"
  "\<not> globMatch ''/*ball*'' ''/basketweaving''"
  by (simp_all add: globMatch_def globTerms_ball_star lineTerminator_def)

text \<open>
  C6. Under a plain prefix (the default \<open>/kvfs\<close> is one) and for every engine, when the
  keys of the store are exactly the prefix followed by \<open>/baseball\<close>, \<open>/basketball\<close>,
  \<open>/ball\<close>, \<open>/baller\<close> and \<open>/basketweaving\<close>, \<open>ls\<close> of \<open>/*ball\<close> returns exactly the
  paths \<open>/baseball\<close>, \<open>/basketball\<close> and \<open>/ball\<close>, and \<open>ls\<close> of \<open>/*ball*\<close> returns these
  and \<open>/baller\<close>.
\<close>

theorem ls_ball_wildcards:
  assumes "plainPrefix (prefix fs)"
    and "set (fst (getAllKeys (store fs))) =
           {prefix fs @ ''/baseball'', prefix fs @ ''/basketball'', prefix fs @ ''/ball'',
            prefix fs @ ''/baller'', prefix fs @ ''/basketweaving''}"
  shows "(\<exists>paths. fst (ls E fs (Some ''/*ball'')) = Inr paths \<and>
            set paths = {''/baseball'', ''/basketball'', ''/ball''}) \<and>
         (\<exists>paths. fst (ls E fs (Some ''/*ball*'')) = Inr paths \<and>
            set paths = {''/baseball'', ''/basketball'', ''/ball'', ''/baller''})"
proof -
  let ?A = "{''/baseball'', ''/basketball'', ''/ball'', ''/baller'', ''/basketweaving''}"
  have keys: "set (fst (getAllKeys (store fs))) = (\<lambda>path. prefix fs @ path) ` ?A"
    using assms(2) by (simp only: image_insert image_empty)
  have ex: "\<exists>paths. fst (ls E fs spec) = Inr paths" for spec
    by (simp add: ls_plain [OF assms(1)])
  have n: "normalizedSpec (Some ''/*ball'') = ''/*ball''"
    "normalizedSpec (Some ''/*ball*'') = ''/*ball*''"
    by (simp_all add: normalizedSpec_def)
  have a: "set paths = {''/baseball'', ''/basketball'', ''/ball''}"
    if "fst (ls E fs (Some ''/*ball'')) = Inr paths" for paths
    unfolding set_ls_plain_keys [OF assms(1) that keys] n
    by (simp only: Collect_insert_if globMatch_ball if_True if_False Collect_empty_if)
  have b: "set paths = {''/baseball'', ''/basketball'', ''/ball'', ''/baller''}"
    if "fst (ls E fs (Some ''/*ball*'')) = Inr paths" for paths
    unfolding set_ls_plain_keys [OF assms(1) that keys] n
    by (simp only: Collect_insert_if globMatch_ball_star if_True if_False Collect_empty_if)
  obtain ps where ps: "fst (ls E fs (Some ''/*ball'')) = Inr ps"
    using ex [of "Some ''/*ball''"] ..
  obtain qs where qs: "fst (ls E fs (Some ''/*ball*'')) = Inr qs"
    using ex [of "Some ''/*ball*''"] ..
  have "\<exists>paths. fst (ls E fs (Some ''/*ball'')) = Inr paths \<and>
            set paths = {''/baseball'', ''/basketball'', ''/ball''}"
    using ps a [OF ps] by (intro exI [of _ ps] conjI)
  moreover have "\<exists>paths. fst (ls E fs (Some ''/*ball*'')) = Inr paths \<and>
            set paths = {''/baseball'', ''/basketball'', ''/ball'', ''/baller''}"
    using qs b [OF qs] by (intro exI [of _ qs] conjI)
  ultimately show ?thesis by (rule conjI)
qed

theorem ls_ball_wildcards_witness:
  "plainPrefix ''/kvfs'' \<and>
   fst (ls refusing \<lparr>store = \<lparr>entries = [(''/kvfs/baseball'', ''1''), (''/kvfs/basketball'', ''2''),
                     (''/kvfs/ball'', ''3''), (''/kvfs/baller'', ''4''), (''/kvfs/basketweaving'', ''5'')],
                    calls = []\<rparr>, prefix = ''/kvfs''\<rparr> (Some ''/*ball'')) =
     Inr [''/baseball'', ''/basketball'', ''/ball''] \<and>
   fst (ls refusing \<lparr>store = \<lparr>entries = [(''/kvfs/baseball'', ''1''), (''/kvfs/basketball'', ''2''),
                     (''/kvfs/ball'', ''3''), (''/kvfs/baller'', ''4''), (''/kvfs/basketweaving'', ''5'')],
                    calls = []\<rparr>, prefix = ''/kvfs''\<rparr> (Some ''/*ball*'')) =
     Inr [''/baseball'', ''/basketball'', ''/ball'', ''/baller'']"
proof -
  let ?fs = "\<lparr>store = \<lparr>entries = [(''/kvfs/baseball'', ''1''), (''/kvfs/basketball'', ''2''),
                     (''/kvfs/ball'', ''3''), (''/kvfs/baller'', ''4''), (''/kvfs/basketweaving'', ''5'')],
                    calls = []\<rparr>, prefix = ''/kvfs''\<rparr>"
  have p: "plainPrefix (prefix ?fs)"
    by (simp add: plainPrefix_def syntaxCharacter_def backslash_def)
  have k: "set (fst (getAllKeys (store ?fs))) =
           {prefix ?fs @ ''/baseball'', prefix ?fs @ ''/basketball'', prefix ?fs @ ''/ball'',
            prefix ?fs @ ''/baller'', prefix ?fs @ ''/basketweaving''}"
    by (simp add: getAllKeys_def)
  note w = ls_ball_wildcards [where E = refusing, OF p k]
  have "fst (ls refusing ?fs (Some ''/*ball'')) = Inr [''/baseball'', ''/basketball'', ''/ball'']"
    by (simp add: eval_defs)
  moreover have "fst (ls refusing ?fs (Some ''/*ball*'')) = Inr [''/baseball'', ''/basketball'', ''/ball'', ''/baller'']"
    by (simp add: eval_defs)
  ultimately show ?thesis using p w by simp
qed

section \<open>A backslash at the end of a spec\<close>

lemma scan_dangling:
  "danglingEscape spec \<Longrightarrow>
   scan spec segs cur =
     (fst (scan (butlast spec) segs cur), snd (scan (butlast spec) segs cur) @ ''undefined'')"
proof (induction spec arbitrary: segs cur rule: danglingEscape.induct)
  case 1
  then show ?case by simp
next
  case (2 c)
  then show ?case by simp
next
  case (3 c d ds)
  show ?case
  proof (cases "c = backslash")
    case True
    with "3.prems" have d: "danglingEscape ds" by simp
    then have "ds \<noteq> []" by auto
    with True "3.IH"(1) [OF True d] show ?thesis by simp
  next
    case False
    with "3.prems" have d: "danglingEscape (d # ds)" by simp
    from False "3.IH"(2) [OF False d] show ?thesis by simp
  qed
qed

lemma segmentsOf_dangling:
  assumes "danglingEscape spec"
  shows "segmentsOf spec =
     fst (scan (butlast spec) [] []) @ [snd (scan (butlast spec) [] []) @ ''undefined'']"
  by (simp add: segmentsOf_def scan_dangling [OF assms])

lemma globMatch_backslash: "globMatch [backslash] path \<longleftrightarrow> path = ''undefined''"
proof -
  have "globTerms [backslash] = atomTerms ''undefined'' @ [Eol]"
    by (simp add: globTerms_def segmentsOf_def openEnd_def backslash_def)
  then show ?thesis
    by (auto simp: globMatch_def matchFrom_atomTerms)
qed

text \<open>
  C9 as it is stated, for every prefix, fails at the prefix \<open>/kv.fs\<close>, which the
  constructor accepts: the source of the regular expression for the spec that is one
  backslash is \<open>^/kv.fsundefined$\<close>, its \<open>.\<close> stands for any character, so it accepts the
  key \<open>/kv-fsundefined\<close>, which is not the prefix followed by \<open>undefined\<close>; and \<open>ls\<close>
  returns the path \<open>undefined\<close> over a store that holds that key alone, where the prefix
  followed by \<open>undefined\<close> is no key of the store.
\<close>

theorem trailing_escape_syntax_prefix_counterexample:
  "regexSource ''/kv.fs'' [backslash] = ''^/kv.fsundefined$'' \<and>
   regexFromSpec refusing
     \<lparr>store = \<lparr>entries = [(''/kv-fsundefined'', ''1'')], calls = []\<rparr>, prefix = ''/kv.fs''\<rparr>
     [backslash] \<noteq> None \<and>
   the (regexFromSpec refusing
     \<lparr>store = \<lparr>entries = [(''/kv-fsundefined'', ''1'')], calls = []\<rparr>, prefix = ''/kv.fs''\<rparr>
     [backslash]) ''/kv-fsundefined'' \<and>
   ''/kv-fsundefined'' \<noteq> ''/kv.fs'' @ ''undefined'' \<and>
   ''/kv.fs'' @ ''undefined''
     \<notin> set (fst (getAllKeys \<lparr>entries = [(''/kv-fsundefined'', ''1'')], calls = []\<rparr>)) \<and>
   fst (ls refusing
     \<lparr>store = \<lparr>entries = [(''/kv-fsundefined'', ''1'')], calls = []\<rparr>, prefix = ''/kv.fs''\<rparr>
     (Some [backslash])) = Inr [''undefined'']"
  by (simp add: eval_defs Let_def)

text \<open>The engine has no part in this: \<open>ls\<close> returns the same under every engine.\<close>

lemma trailing_escape_syntax_prefix_any_engine:
  "fst (ls E
     \<lparr>store = \<lparr>entries = [(''/kv-fsundefined'', ''1'')], calls = []\<rparr>, prefix = ''/kv.fs''\<rparr>
     (Some [backslash])) = Inr [''undefined'']"
  by (simp add: eval_defs Let_def)

text \<open>
  C9, amended to a plain prefix. When the scan ends on a backslash with no character
  after it, the text \<open>undefined\<close> is appended to the current segment, which becomes the
  last segment. For the spec that is one backslash, under a plain prefix and for every
  engine, the source of the regular expression is \<open>^\<close>, the prefix, \<open>undefined$\<close>; it
  accepts the key made of the prefix and \<open>undefined\<close> and no other; and \<open>ls\<close> over a store
  that lists each key once returns the single path \<open>undefined\<close> if that key is in the
  store and no path otherwise.
\<close>

theorem trailing_escape_undefined:
  assumes "plainPrefix (prefix fs)" and "distinct (fst (getAllKeys (store fs)))"
  shows "(danglingEscape spec \<longrightarrow>
           segmentsOf spec =
             fst (scan (butlast spec) [] []) @ [snd (scan (butlast spec) [] []) @ ''undefined'']) \<and>
         regexSource (prefix fs) [backslash] = ''^'' @ prefix fs @ ''undefined$'' \<and>
         (\<exists>regex. regexFromSpec E fs [backslash] = Some regex \<and>
            (\<forall>key. regex key \<longleftrightarrow> key = prefix fs @ ''undefined'')) \<and>
         fst (ls E fs (Some [backslash])) =
           Inr (if prefix fs @ ''undefined'' \<in> set (fst (getAllKeys (store fs)))
                then [''undefined''] else [])"
proof -
  let ?p = "prefix fs"
  let ?keys = "map fst (entries (store fs))"
  have src: "regexSource ?p [backslash] = ''^'' @ ?p @ ''undefined$''"
    by (simp add: regexSource_def openEnd_def segmentsOf_def escapeSegment_def regexSpecial_def
        backslash_def)
  have m: "\<exists>regex. regexFromSpec E fs [backslash] = Some regex \<and>
            (\<forall>key. regex key \<longleftrightarrow> key = ?p @ ''undefined'')"
    using test_regexFromSpec [OF assms(1), of E "[backslash]"]
    by (simp add: globMatch_backslash)
  have sel: "(\<lambda>key. startsWith key ?p \<and> globMatch [backslash] (drop (length ?p) key)) =
             (\<lambda>key. key = ?p @ ''undefined'')"
  proof (rule ext)
    fix key
    show "(startsWith key ?p \<and> globMatch [backslash] (drop (length ?p) key)) =
          (key = ?p @ ''undefined'')"
      using prefixed_iff [of key ?p "\<lambda>path. path = ''undefined''"]
      by (simp add: globMatch_backslash)
  qed
  have d: "distinct ?keys" using assms(2) by (simp add: getAllKeys_def)
  have "fst (ls E fs (Some [backslash])) =
        Inr (map (drop (length ?p)) (filter (\<lambda>key. key = ?p @ ''undefined'') ?keys))"
    by (simp add: ls_plain [OF assms(1)] normalizedSpec_def sel)
  also have "\<dots> = Inr (if ?p @ ''undefined'' \<in> set ?keys then [''undefined''] else [])"
    by (simp add: filter_eq_distinct [OF d])
  finally have l: "fst (ls E fs (Some [backslash])) =
      Inr (if ?p @ ''undefined'' \<in> set (fst (getAllKeys (store fs))) then [''undefined''] else [])"
    by (simp add: getAllKeys_def)
  from segmentsOf_dangling src m l show ?thesis by blast
qed

theorem trailing_escape_undefined_witness:
  "plainPrefix (prefix \<lparr>store = \<lparr>entries = [(''/kvfs/undefined'', ''1''), (''/kvfsundefined'', ''2'')], calls = []\<rparr>, prefix = ''/kvfs''\<rparr>) \<and>
   distinct (fst (getAllKeys (store \<lparr>store = \<lparr>entries = [(''/kvfs/undefined'', ''1''), (''/kvfsundefined'', ''2'')], calls = []\<rparr>, prefix = ''/kvfs''\<rparr>))) \<and>
   danglingEscape (''/a*b'' @ [backslash]) \<and>
   segmentsOf (''/a*b'' @ [backslash]) = [''/a'', ''bundefined''] \<and>
   fst (ls refusing \<lparr>store = \<lparr>entries = [(''/kvfs/undefined'', ''1''), (''/kvfsundefined'', ''2'')], calls = []\<rparr>, prefix = ''/kvfs''\<rparr>
        (Some [backslash])) = Inr [''undefined'']"
  using trailing_escape_undefined [where E = refusing and spec = "''/a*b'' @ [backslash]" and
      fs = "\<lparr>store = \<lparr>entries = [(''/kvfs/undefined'', ''1''), (''/kvfsundefined'', ''2'')], calls = []\<rparr>, prefix = ''/kvfs''\<rparr>"]
  by (simp add: plainPrefix_def syntaxCharacter_def backslash_def getAllKeys_def)

section \<open>An escaped star at the end of a spec\<close>

text \<open>
  C3, at the spec \<open>/a\*\<close> under the prefix \<open>/kvfs\<close>. The scan reads the escaped star as
  a literal character of the segment \<open>/a*\<close>, but the test of line 152 looks at the last
  character of the spec alone and leaves the end open: the source of the regular
  expression ends in \<open>.*$\<close>, and \<open>ls\<close> returns \<open>/a*bc\<close> together with \<open>/a*\<close>.
\<close>

theorem escaped_wildcard_leaves_end_open:
  "segmentsOf (''/a'' @ [backslash] @ ''*'') = [''/a*''] \<and>
   regexSource ''/kvfs'' (''/a'' @ [backslash] @ ''*'') = ''^/kvfs/a'' @ [backslash] @ ''*.*$'' \<and>
   fst (ls E \<lparr>store = \<lparr>entries = [(''/kvfs/a*'', ''1''), (''/kvfs/a*bc'', ''2'')], calls = []\<rparr>, prefix = ''/kvfs''\<rparr>
          (Some (''/a'' @ [backslash] @ ''*''))) = Inr [''/a*'', ''/a*bc'']"
  by (simp add: eval_defs)

section \<open>A prefix with a syntax character\<close>

text \<open>
  The keys that \<open>write\<close> and \<open>writeMulti\<close> hand to the store start with the prefix.
\<close>

lemma write_key_starts_with_prefix:
  "write_value J fs path v = (Inr (), fs') \<Longrightarrow>
   calls (store fs') = calls (store fs) @ [SetItem (prefix fs @ path) (stringify J v)] \<and>
   startsWith (prefix fs @ path) (prefix fs)"
  by (auto simp: write_value_def setItem_def logged_def startsWith_def split: sum.splits)

lemma keyValues_start_with_prefix:
  "keyValues J p basePath vs = Inr kvs \<Longrightarrow> (k, t) \<in> set kvs \<Longrightarrow> startsWith k p"
proof (induction vs arbitrary: kvs)
  case Nil
  then show ?case by simp
next
  case (Cons e vs)
  obtain s w where e: "e = (s, w)" by (cases e)
  from Cons.prems(1) obtain rest where
    rest: "keyValues J p basePath vs = Inr rest"
    and kvs: "kvs = (p @ fullPath basePath s, stringify J w) # rest"
    by (auto simp: e split: sum.splits)
  from Cons.prems(2) kvs consider "k = p @ fullPath basePath s" | "(k, t) \<in> set rest" by auto
  then show ?case
  proof cases
    case 1
    then show ?thesis by (simp add: startsWith_def)
  next
    case 2
    with Cons.IH [OF rest] show ?thesis .
  qed
qed

text \<open>
  C2, at the prefix \<open>/kv.fs\<close>. The constructor accepts it. The prefix goes into the
  source of the regular expression as it is (line 152), only the segments are escaped
  (line 148), so its \<open>.\<close> stands for any character: \<open>ls\<close> of \<open>/home\<close> lists the key
  \<open>/kv-fs/home\<close>, which does not start with the prefix, as the path \<open>/home\<close>.
\<close>

theorem ls_lists_key_outside_prefix:
  "constructor \<lparr>entries = [(''/kv-fs/home'', ''secretstuff'')], calls = []\<rparr> (Some ''/kv.fs'') =
     Inr \<lparr>store = \<lparr>entries = [(''/kv-fs/home'', ''secretstuff'')], calls = []\<rparr>, prefix = ''/kv.fs''\<rparr> \<and>
   \<not> startsWith ''/kv-fs/home'' ''/kv.fs'' \<and>
   regexSource ''/kv.fs'' ''/home'' = ''^/kv.fs/home$'' \<and>
   fst (ls E \<lparr>store = \<lparr>entries = [(''/kv-fs/home'', ''secretstuff'')], calls = []\<rparr>, prefix = ''/kv.fs''\<rparr>
          (Some ''/home'')) = Inr [''/home'']"
  by (simp add: constructor_def startsWith_def eval_defs Let_def)

end
